theory Spec2Isabelle
  imports Main
begin

section \<open>The body run by the worker thread\<close>

text \<open>
  \<^verbatim>\<open>Coroutine.hpp\<close> runs a user-supplied callable (\<^verbatim>\<open>func\<close>, bound to the
  instance) on a \<^verbatim>\<open>std::thread\<close>. Seen from the coroutine, a body is what it does
  next: it returns, it leaves by an exception of its own, it computes without touching
  the coroutine, or it calls \<^verbatim>\<open>yield(v)\<close>. A call of \<^verbatim>\<open>yield\<close> stands inside the
  \<^verbatim>\<open>try\<close> blocks the body has open at that point; they are listed innermost first,
  each with the code that runs when its handler is entered. Bodies may run forever, so the
  type is a codatatype.
\<close>

datatype catch_clause =
    CatchAll              \<comment> \<open>\<^verbatim>\<open>catch (...)\<close>\<close>
  | CatchStdException     \<comment> \<open>\<^verbatim>\<open>catch (const std::exception &)\<close>\<close>
  | CatchUnrelated        \<comment> \<open>a handler for any type that is not a base of \<^verbatim>\<open>InterruptedException\<close>\<close>

codatatype 'v body =
    Return
  | Throw
  | Work "'v body"
  | Yield 'v "'v body" "(catch_clause \<times> 'v body) list"

text \<open>
  \<^verbatim>\<open>class InterruptedException : public std::exception\<close> (lines 96-99): a handler
  matches the thrown object when it is a catch-all or names a public base class.
\<close>

fun catches_InterruptedException :: "catch_clause \<Rightarrow> bool" where
  "catches_InterruptedException CatchAll = True"
| "catches_InterruptedException CatchStdException = True"
| "catches_InterruptedException CatchUnrelated = False"

fun find_handler :: "(catch_clause \<times> 'v body) list \<Rightarrow> 'v body option" where
  "find_handler [] = None"
| "find_handler ((c, h) # hs) =
     (if catches_InterruptedException c then Some h else find_handler hs)"

text \<open>A body that yields the values of a list in order and then returns.\<close>

fun yields :: "'v list \<Rightarrow> 'v body" where
  "yields [] = Return"
| "yields (v # vs) = Yield v (yields vs) []"

section \<open>The state of a coroutine instance and of its two threads\<close>

datatype tid = Caller | Worker

datatype crash =
    AssertionFailure   \<comment> \<open>an \<^verbatim>\<open>assert\<close> failed: the process aborts\<close>
  | Terminate          \<comment> \<open>an exception left the thread function: \<^verbatim>\<open>std::terminate\<close>\<close>

text \<open>
  One program point per statement of each member function. A thread inside
  \<^verbatim>\<open>conditionVariable.wait(lock)\<close> is first \<open>Blocked\<close> (the mutex released), then
  \<open>Woken\<close> (unblocked, the mutex not yet re-acquired).
\<close>

datatype ctor_pc = CtorLock | CtorSpawn | CtorWait | CtorBlocked | CtorWoken | CtorReturn

datatype resume_pc =
  ResumeLock | ResumeAssert | ResumeTest | ResumeNotify | ResumeWait | ResumeBlocked
  | ResumeWoken | ResumeReturn

datatype dtor_pc = DtorLock | DtorQuit | DtorFlag | DtorUnlock | DtorNotify | DtorJoin

datatype yield_pc =
  YieldLock | YieldStore | YieldFlag | YieldNotify | YieldWait | YieldBlocked | YieldWoken
  | YieldTest

datatype run_pc = RunLock | RunQuit | RunFlag | RunNotify | RunReturn

datatype 'v caller_pc =
    InCtor ctor_pc "'v body"
  | User                        \<comment> \<open>caller-side user code, between two calls\<close>
  | InResume resume_pc
  | InDtor dtor_pc
  | Destroyed

datatype 'v worker_pc =
    NotStarted
  | InBody "'v body"            \<comment> \<open>worker-side user code\<close>
  | InYield yield_pc 'v "'v body" "(catch_clause \<times> 'v body) list"
  | InRun run_pc
  | Exited                      \<comment> \<open>the thread function has returned\<close>

text \<open>
  The members \<^verbatim>\<open>quit\<close>, \<^verbatim>\<open>canGetValue\<close>, \<^verbatim>\<open>result\<close> and \<^verbatim>\<open>mutex\<close> (lines 101-106),
  the program points of the two threads, and the state of the process. \<^verbatim>\<open>result\<close> is
  \<open>None\<close> until the first assignment. The last three fields are history: the values
  assigned to \<^verbatim>\<open>result\<close> so far, the number of calls of \<^verbatim>\<open>resume\<close> that have
  returned, and whether a handler of the body has caught \<^verbatim>\<open>InterruptedException\<close>.
\<close>

record 'v coroutine =
  quit :: bool
  canGetValue :: bool
  result :: "'v option"
  mutex :: "tid option"
  caller :: "'v caller_pc"
  thread :: "'v worker_pc"
  crashed :: "crash option"
  published :: "'v list"
  resumes :: nat
  intercepted :: bool

definition init :: "'v body \<Rightarrow> 'v coroutine" where
  "init func = \<lparr> quit = False, canGetValue = False, result = None, mutex = None,
     caller = InCtor CtorLock func, thread = NotStarted, crashed = None,
     published = [], resumes = 0, intercepted = False \<rparr>"

section \<open>Mutex and condition variable\<close>

definition lock :: "tid \<Rightarrow> 'v coroutine \<Rightarrow> 'v coroutine option" where
  "lock t s = (if mutex s = None then Some (s\<lparr>mutex := Some t\<rparr>) else None)"

definition unlock :: "'v coroutine \<Rightarrow> 'v coroutine" where
  "unlock s = s\<lparr>mutex := None\<rparr>"

fun wake_caller :: "'v caller_pc \<Rightarrow> 'v caller_pc" where
  "wake_caller (InCtor CtorBlocked f) = InCtor CtorWoken f"
| "wake_caller (InResume ResumeBlocked) = InResume ResumeWoken"
| "wake_caller p = p"

fun wake_worker :: "'v worker_pc \<Rightarrow> 'v worker_pc" where
  "wake_worker (InYield YieldBlocked v k hs) = InYield YieldWoken v k hs"
| "wake_worker p = p"

definition notify_all :: "'v coroutine \<Rightarrow> 'v coroutine" where
  "notify_all s = s\<lparr>caller := wake_caller (caller s), thread := wake_worker (thread s)\<rparr>"

section \<open>The member functions, statement by statement\<close>

text \<open>The constructor, lines 29-36.\<close>

fun construct :: "ctor_pc \<Rightarrow> 'v body \<Rightarrow> 'v coroutine \<Rightarrow> 'v coroutine option" where
  "construct CtorLock f s = map_option (\<lambda>s. s\<lparr>caller := InCtor CtorSpawn f\<rparr>) (lock Caller s)"
| "construct CtorSpawn f s = Some (s\<lparr>thread := InBody f, caller := InCtor CtorWait f\<rparr>)"
| "construct CtorWait f s = Some ((unlock s)\<lparr>caller := InCtor CtorBlocked f\<rparr>)"
| "construct CtorBlocked f s = None"
| "construct CtorWoken f s = map_option (\<lambda>s. s\<lparr>caller := InCtor CtorReturn f\<rparr>) (lock Caller s)"
| "construct CtorReturn f s = Some ((unlock s)\<lparr>caller := User\<rparr>)"

text \<open>The destructor, lines 38-47. \<^verbatim>\<open>join\<close> returns once the thread function has.\<close>

fun destruct :: "dtor_pc \<Rightarrow> 'v coroutine \<Rightarrow> 'v coroutine option" where
  "destruct DtorLock s = map_option (\<lambda>s. s\<lparr>caller := InDtor DtorQuit\<rparr>) (lock Caller s)"
| "destruct DtorQuit s = Some (s\<lparr>quit := True, caller := InDtor DtorFlag\<rparr>)"
| "destruct DtorFlag s = Some (s\<lparr>canGetValue := False, caller := InDtor DtorUnlock\<rparr>)"
| "destruct DtorUnlock s = Some ((unlock s)\<lparr>caller := InDtor DtorNotify\<rparr>)"
| "destruct DtorNotify s = Some ((notify_all s)\<lparr>caller := InDtor DtorJoin\<rparr>)"
| "destruct DtorJoin s = (if thread s = Exited then Some (s\<lparr>caller := Destroyed\<rparr>) else None)"

text \<open>
  \<^verbatim>\<open>yield\<close>, lines 49-60. At \<open>YieldTest\<close> the function either returns to the body or
  throws \<^verbatim>\<open>InterruptedException\<close>; both release the \<^verbatim>\<open>unique_lock\<close>. The exception
  goes to the innermost handler of the body that matches it, and to the handler of
  \<^verbatim>\<open>run\<close> (lines 114-117, which returns from the thread function) when there is none.
\<close>

fun yield ::
  "yield_pc \<Rightarrow> 'v \<Rightarrow> 'v body \<Rightarrow> (catch_clause \<times> 'v body) list \<Rightarrow> 'v coroutine
     \<Rightarrow> 'v coroutine option" where
  "yield YieldLock v k hs s =
     map_option (\<lambda>s. s\<lparr>thread := InYield YieldStore v k hs\<rparr>) (lock Worker s)"
| "yield YieldStore v k hs s =
     Some (s\<lparr>result := Some v, published := published s @ [v],
             thread := InYield YieldFlag v k hs\<rparr>)"
| "yield YieldFlag v k hs s = Some (s\<lparr>canGetValue := True, thread := InYield YieldNotify v k hs\<rparr>)"
| "yield YieldNotify v k hs s = Some ((notify_all s)\<lparr>thread := InYield YieldWait v k hs\<rparr>)"
| "yield YieldWait v k hs s = Some ((unlock s)\<lparr>thread := InYield YieldBlocked v k hs\<rparr>)"
| "yield YieldBlocked v k hs s = None"
| "yield YieldWoken v k hs s =
     map_option (\<lambda>s. s\<lparr>thread := InYield YieldTest v k hs\<rparr>) (lock Worker s)"
| "yield YieldTest v k hs s =
     (if quit s then
        (case find_handler hs of
           None \<Rightarrow> Some ((unlock s)\<lparr>thread := Exited\<rparr>)
         | Some h \<Rightarrow> Some ((unlock s)\<lparr>thread := InBody h, intercepted := True\<rparr>))
      else Some ((unlock s)\<lparr>thread := InBody k\<rparr>))"

text \<open>
  \<^verbatim>\<open>get\<close>, lines 62-72: \<^verbatim>\<open>assert(canGetValue)\<close>, then the slot. \<open>ndebug\<close> says
  whether the program is compiled with \<^verbatim>\<open>NDEBUG\<close>, which removes every \<^verbatim>\<open>assert\<close>.
\<close>

definition get :: "bool \<Rightarrow> 'v coroutine \<Rightarrow> crash + 'v option" where
  "get ndebug s = (if \<not> ndebug \<and> \<not> canGetValue s then Inl AssertionFailure else Inr (result s))"


text \<open>\<^verbatim>\<open>resume\<close>, lines 74-83 (and, word for word, lines 161-170).\<close>

fun resume :: "bool \<Rightarrow> resume_pc \<Rightarrow> 'v coroutine \<Rightarrow> 'v coroutine option" where
  "resume ndebug ResumeLock s =
     map_option (\<lambda>s. s\<lparr>caller := InResume ResumeAssert\<rparr>) (lock Caller s)"
| "resume ndebug ResumeAssert s =
     (if \<not> ndebug \<and> quit s then Some (s\<lparr>crashed := Some AssertionFailure\<rparr>)
      else Some (s\<lparr>caller := InResume ResumeTest\<rparr>))"
| "resume ndebug ResumeTest s =
     (if \<not> quit s then Some (s\<lparr>caller := InResume ResumeNotify\<rparr>)
      else Some (s\<lparr>caller := InResume ResumeReturn\<rparr>))"
| "resume ndebug ResumeNotify s = Some ((notify_all s)\<lparr>caller := InResume ResumeWait\<rparr>)"
| "resume ndebug ResumeWait s = Some ((unlock s)\<lparr>caller := InResume ResumeBlocked\<rparr>)"
| "resume ndebug ResumeBlocked s = None"
| "resume ndebug ResumeWoken s =
     map_option (\<lambda>s. s\<lparr>caller := InResume ResumeReturn\<rparr>) (lock Caller s)"
| "resume ndebug ResumeReturn s = Some ((unlock s)\<lparr>caller := User, resumes := Suc (resumes s)\<rparr>)"

text \<open>
  \<^verbatim>\<open>run\<close>, lines 108-122: first the call \<^verbatim>\<open>coroutine()\<close>, one action of the body at a
  time. Only \<^verbatim>\<open>InterruptedException\<close> is caught there, so any other exception leaves
  the thread function and the process is terminated.
\<close>

definition run_body :: "'v body \<Rightarrow> 'v coroutine \<Rightarrow> 'v coroutine" where
  "run_body b s =
     (case b of
        Return \<Rightarrow> s\<lparr>thread := InRun RunLock\<rparr>
      | Throw \<Rightarrow> s\<lparr>crashed := Some Terminate\<rparr>
      | Work b' \<Rightarrow> s\<lparr>thread := InBody b'\<rparr>
      | Yield v k hs \<Rightarrow> s\<lparr>thread := InYield YieldLock v k hs\<rparr>)"

fun run :: "run_pc \<Rightarrow> 'v coroutine \<Rightarrow> 'v coroutine option" where
  "run RunLock s = map_option (\<lambda>s. s\<lparr>thread := InRun RunQuit\<rparr>) (lock Worker s)"
| "run RunQuit s = Some (s\<lparr>quit := True, thread := InRun RunFlag\<rparr>)"
| "run RunFlag s = Some (s\<lparr>canGetValue := False, thread := InRun RunNotify\<rparr>)"
| "run RunNotify s = Some ((notify_all s)\<lparr>thread := InRun RunReturn\<rparr>)"
| "run RunReturn s = Some ((unlock s)\<lparr>thread := Exited\<rparr>)"

section \<open>Executions\<close>

text \<open>
  An execution is a list of actions: a thread executes its next statement, the caller's
  user code calls a member function, or a thread blocked in \<^verbatim>\<open>wait\<close> is unblocked with
  no notification (\<^verbatim>\<open>std::condition_variable::wait\<close> may unblock spuriously). An action
  that is not enabled has no successor; nothing is enabled once the process has crashed.
\<close>

datatype op = Get | Alive | Resume | Destroy

datatype action = Step tid | Invoke op | Spurious tid

fun invoke :: "bool \<Rightarrow> op \<Rightarrow> 'v coroutine \<Rightarrow> 'v coroutine" where
  "invoke ndebug Get s =
     (case get ndebug s of Inl c \<Rightarrow> s\<lparr>crashed := Some c\<rparr> | Inr r \<Rightarrow> s)"
| "invoke ndebug Alive s = s"
| "invoke ndebug Resume s = s\<lparr>caller := InResume ResumeLock\<rparr>"
| "invoke ndebug Destroy s = s\<lparr>caller := InDtor DtorLock\<rparr>"

fun caller_step :: "bool \<Rightarrow> 'v coroutine \<Rightarrow> 'v coroutine option" where
  "caller_step ndebug s =
     (case caller s of
        InCtor pc f \<Rightarrow> construct pc f s
      | User \<Rightarrow> None
      | InResume pc \<Rightarrow> resume ndebug pc s
      | InDtor pc \<Rightarrow> destruct pc s
      | Destroyed \<Rightarrow> None)"

fun worker_step :: "'v coroutine \<Rightarrow> 'v coroutine option" where
  "worker_step s =
     (case thread s of
        NotStarted \<Rightarrow> None
      | InBody b \<Rightarrow> Some (run_body b s)
      | InYield pc v k hs \<Rightarrow> yield pc v k hs s
      | InRun pc \<Rightarrow> run pc s
      | Exited \<Rightarrow> None)"

fun spurious :: "tid \<Rightarrow> 'v coroutine \<Rightarrow> 'v coroutine option" where
  "spurious Caller s =
     (if wake_caller (caller s) = caller s then None
      else Some (s\<lparr>caller := wake_caller (caller s)\<rparr>))"
| "spurious Worker s =
     (if wake_worker (thread s) = thread s then None
      else Some (s\<lparr>thread := wake_worker (thread s)\<rparr>))"

fun step :: "bool \<Rightarrow> action \<Rightarrow> 'v coroutine \<Rightarrow> 'v coroutine option" where
  "step ndebug a s =
     (if crashed s \<noteq> None then None
      else case a of
        Step Caller \<Rightarrow> caller_step ndebug s
      | Step Worker \<Rightarrow> worker_step s
      | Invoke f \<Rightarrow> (if caller s = User then Some (invoke ndebug f s) else None)
      | Spurious t \<Rightarrow> spurious t s)"

fun exec :: "bool \<Rightarrow> action list \<Rightarrow> 'v coroutine \<Rightarrow> 'v coroutine option" where
  "exec ndebug [] s = Some s"
| "exec ndebug (a # as) s =
     (case step ndebug a s of None \<Rightarrow> None | Some s' \<Rightarrow> exec ndebug as s')"

fun is_spurious :: "action \<Rightarrow> bool" where
  "is_spurious (Spurious t) = True"
| "is_spurious a = False"

definition notified_only :: "action list \<Rightarrow> bool" where
  "notified_only as = (\<not> list_ex is_spurious as)"

text \<open>
  Two schedules used to run the model on concrete bodies: the constructor with the
  worker's first turn, and one call of \<^verbatim>\<open>resume\<close> with the worker's next turn.
\<close>

definition construct_run :: "action list" where
  "construct_run =
     replicate 3 (Step Caller) @ replicate 6 (Step Worker) @ replicate 2 (Step Caller)"

definition resume_run :: "action list" where
  "resume_run =
     Invoke Resume # replicate 5 (Step Caller) @ replicate 8 (Step Worker)
       @ replicate 2 (Step Caller)"

text \<open>The destructor called on a coroutine whose worker is suspended in \<^verbatim>\<open>yield\<close>.\<close>

definition destroy_run :: "action list" where
  "destroy_run =
     Invoke Destroy # replicate 5 (Step Caller) @ replicate 2 (Step Worker) @ [Step Caller]"

text \<open>
  Three more bodies. The first yields twice and then throws. The second and the third
  call \<^verbatim>\<open>yield(1)\<close> inside \<^verbatim>\<open>try\<close> blocks: one with a handler for an unrelated
  type and, around it, a handler for \<^verbatim>\<open>std::exception\<close> that does some work and
  returns; the other with a catch-all handler that calls \<^verbatim>\<open>yield(2)\<close>.
\<close>

definition throws_after_two :: "nat body" where
  "throws_after_two = Yield 1 (Yield 2 Throw []) []"

definition catches_and_reports :: "nat body" where
  "catches_and_reports = Yield 1 Return [(CatchUnrelated, Return), (CatchStdException, Work Return)]"

definition catches_and_yields :: "nat body" where
  "catches_and_yields = Yield 1 Return [(CatchAll, Yield 2 Return [])]"

section \<open>Invariants\<close>

subsection \<open>Who holds the mutex\<close>

fun caller_holds :: "'v caller_pc \<Rightarrow> bool" where
  "caller_holds (InCtor pc f) = (pc \<in> {CtorSpawn, CtorWait, CtorReturn})"
| "caller_holds (InResume pc) = (pc \<in> {ResumeAssert, ResumeTest, ResumeNotify, ResumeWait, ResumeReturn})"
| "caller_holds (InDtor pc) = (pc \<in> {DtorQuit, DtorFlag, DtorUnlock})"
| "caller_holds p = False"

fun worker_holds :: "'v worker_pc \<Rightarrow> bool" where
  "worker_holds (InYield pc v k hs) = (pc \<in> {YieldStore, YieldFlag, YieldNotify, YieldWait, YieldTest})"
| "worker_holds (InRun pc) = (pc \<noteq> RunLock)"
| "worker_holds p = False"

definition lock_inv :: "'v coroutine \<Rightarrow> bool" where
  "lock_inv s = ((mutex s = Some Caller) = caller_holds (caller s) \<and>
                 (mutex s = Some Worker) = worker_holds (thread s))"

subsection \<open>Whose turn it is\<close>

text \<open>
  The worker's program points, by their place in a turn: before its critical section,
  inside it up to the notification, between the notification and the release of the
  mutex, suspended or finished, and waking up inside \<^verbatim>\<open>yield\<close>.
\<close>

fun prelock :: "'v worker_pc \<Rightarrow> bool" where
  "prelock (InBody b) = True"
| "prelock (InYield pc v k hs) = (pc = YieldLock)"
| "prelock (InRun pc) = (pc = RunLock)"
| "prelock p = False"

fun publishing :: "'v worker_pc \<Rightarrow> bool" where
  "publishing (InYield pc v k hs) = (pc \<in> {YieldStore, YieldFlag, YieldNotify})"
| "publishing (InRun pc) = (pc \<in> {RunQuit, RunFlag, RunNotify})"
| "publishing p = False"

fun notified :: "'v worker_pc \<Rightarrow> bool" where
  "notified (InYield pc v k hs) = (pc = YieldWait)"
| "notified (InRun pc) = (pc = RunReturn)"
| "notified p = False"

fun parked :: "'v worker_pc \<Rightarrow> bool" where
  "parked (InYield pc v k hs) = (pc = YieldBlocked)"
| "parked Exited = True"
| "parked p = False"

fun resuming :: "'v worker_pc \<Rightarrow> bool" where
  "resuming (InYield pc v k hs) = (pc \<in> {YieldWoken, YieldTest})"
| "resuming p = False"

fun turn :: "'v caller_pc \<Rightarrow> 'v worker_pc \<Rightarrow> bool" where
  "turn (InCtor CtorLock f) w = (w = NotStarted)"
| "turn (InCtor CtorSpawn f) w = (w = NotStarted)"
| "turn (InCtor CtorWait f) w = prelock w"
| "turn (InCtor CtorBlocked f) w = (prelock w \<or> publishing w)"
| "turn (InCtor CtorWoken f) w = (notified w \<or> parked w)"
| "turn (InCtor CtorReturn f) w = parked w"
| "turn User w = parked w"
| "turn (InResume ResumeNotify) w = (\<exists>v k hs. w = InYield YieldBlocked v k hs)"
| "turn (InResume ResumeWait) w = (\<exists>v k hs. w = InYield YieldWoken v k hs)"
| "turn (InResume ResumeBlocked) w = (resuming w \<or> prelock w \<or> publishing w)"
| "turn (InResume ResumeWoken) w = (notified w \<or> parked w)"
| "turn (InResume pc) w = parked w"
| "turn (InDtor pc) w = parked w"
| "turn Destroyed w = (w = Exited)"

fun slot_state :: "'v worker_pc \<Rightarrow> bool \<Rightarrow> bool \<Rightarrow> bool" where
  "slot_state NotStarted q c = (\<not> q)"
| "slot_state (InBody b) q c = (\<not> q)"
| "slot_state (InYield pc v k hs) q c = (\<not> q \<and> (pc \<notin> {YieldLock, YieldStore, YieldFlag} \<longrightarrow> c))"
| "slot_state (InRun pc) q c = (q = (pc \<notin> {RunLock, RunQuit}) \<and> (pc \<in> {RunNotify, RunReturn} \<longrightarrow> \<not> c))"
| "slot_state Exited q c = (q \<and> \<not> c)"

fun cancelling :: "dtor_pc \<Rightarrow> 'v coroutine \<Rightarrow> bool" where
  "cancelling DtorLock s =
     (parked (thread s) \<and> slot_state (thread s) (quit s) (canGetValue s) \<and> \<not> intercepted s)"
| "cancelling DtorQuit s =
     (parked (thread s) \<and> slot_state (thread s) (quit s) (canGetValue s) \<and> \<not> intercepted s)"
| "cancelling DtorFlag s = (parked (thread s) \<and> quit s \<and> \<not> intercepted s)"
| "cancelling DtorUnlock s = (parked (thread s) \<and> quit s \<and> \<not> canGetValue s \<and> \<not> intercepted s)"
| "cancelling DtorNotify s = (parked (thread s) \<and> quit s \<and> \<not> canGetValue s \<and> \<not> intercepted s)"
| "cancelling DtorJoin s =
     (quit s \<and> (\<not> intercepted s \<longrightarrow> \<not> canGetValue s \<and> (resuming (thread s) \<or> thread s = Exited)))"

definition handshake :: "'v coroutine \<Rightarrow> bool" where
  "handshake s =
     (case caller s of
        InDtor pc \<Rightarrow> cancelling pc s
      | Destroyed \<Rightarrow> quit s \<and> thread s = Exited \<and> (\<not> intercepted s \<longrightarrow> \<not> canGetValue s)
      | _ \<Rightarrow> turn (caller s) (thread s) \<and> slot_state (thread s) (quit s) (canGetValue s)
              \<and> \<not> intercepted s)"

subsection \<open>The value slot\<close>

fun flagging :: "'v worker_pc \<Rightarrow> bool" where
  "flagging (InYield pc v k hs) = (pc = YieldFlag)"
| "flagging p = False"

definition slot_inv :: "'v coroutine \<Rightarrow> bool" where
  "slot_inv s =
     (result s = (if published s = [] then None else Some (last (published s))) \<and>
      (canGetValue s \<longrightarrow> published s \<noteq> []) \<and>
      (flagging (thread s) \<longrightarrow> published s \<noteq> []))"

subsection \<open>The termination flag\<close>

text \<open>
  Every change of \<^verbatim>\<open>quit\<close> along an execution, with the statement that made it:
  line 119 of \<^verbatim>\<open>run\<close> (the body has returned), line 42 of the destructor, or anything
  else.
\<close>

datatype quit_change = SetByRun | SetByDestructor | SetElsewhere | Reset

definition quit_change :: "action \<Rightarrow> 'v coroutine \<Rightarrow> 'v coroutine \<Rightarrow> quit_change list" where
  "quit_change a s s' =
     (if quit s' = quit s then []
      else if quit s then [Reset]
      else if a = Step Worker \<and> thread s = InRun RunQuit then [SetByRun]
      else if a = Step Caller \<and> caller s = InDtor DtorQuit then [SetByDestructor]
      else [SetElsewhere])"

fun quit_changes :: "bool \<Rightarrow> action list \<Rightarrow> 'v coroutine \<Rightarrow> quit_change list" where
  "quit_changes ndebug [] s = []"
| "quit_changes ndebug (a # as) s =
     (case step ndebug a s of
        None \<Rightarrow> []
      | Some s' \<Rightarrow> quit_change a s s' @ quit_changes ndebug as s')"

fun cancelled :: "'v caller_pc \<Rightarrow> bool" where
  "cancelled (InDtor pc) = (pc \<notin> {DtorLock, DtorQuit})"
| "cancelled Destroyed = True"
| "cancelled p = False"

fun returned :: "'v worker_pc \<Rightarrow> bool" where
  "returned (InRun pc) = (pc \<notin> {RunLock, RunQuit})"
| "returned Exited = True"
| "returned p = False"

definition quit_inv :: "'v coroutine \<Rightarrow> bool" where
  "quit_inv s = ((cancelled (caller s) \<longrightarrow> quit s) \<and> (returned (thread s) \<longrightarrow> quit s))"

subsection \<open>Bodies that yield a list of values\<close>

text \<open>
  For the body \<open>yields vs\<close>: \<open>turns\<close> counts the turns the caller has handed to the
  worker (one by the constructor, one by each notification of \<^verbatim>\<open>resume\<close>), from the
  caller's program point and the number of calls of \<^verbatim>\<open>resume\<close> that have returned;
  \<open>progress\<close> says where the worker is in the list when \<open>n\<close> values have been published
  and \<open>t\<close> turns handed over.
\<close>

fun turns :: "'v caller_pc \<Rightarrow> nat \<Rightarrow> nat" where
  "turns (InCtor CtorLock f) r = 0"
| "turns (InCtor CtorSpawn f) r = 0"
| "turns (InCtor pc f) r = 1"
| "turns (InResume ResumeWait) r = r + 2"
| "turns (InResume ResumeBlocked) r = r + 2"
| "turns (InResume ResumeWoken) r = r + 2"
| "turns (InResume ResumeReturn) r = r + 2"
| "turns p r = r + 1"


fun constructing :: "'v body \<Rightarrow> nat \<Rightarrow> 'v caller_pc \<Rightarrow> bool" where
  "constructing f r (InCtor pc g) = (g = f \<and> r = 0)"
| "constructing f r p = True"

fun destroying :: "'v caller_pc \<Rightarrow> bool" where
  "destroying (InDtor pc) = True"
| "destroying Destroyed = True"
| "destroying p = False"



subsection \<open>The window in which a value is available\<close>

text \<open>
  Along an execution, the window is open when \<^verbatim>\<open>yield\<close> has stored a value (line 52)
  and the caller has not called \<^verbatim>\<open>resume()\<close> since. \<open>window\<close> follows the actions of
  a schedule: a call of \<^verbatim>\<open>resume()\<close> closes the window, a step that adds to the
  published values opens it. \<open>fresh\<close> and \<open>issued\<close> say the same from the program
  points: the worker has stored a value in its current call of \<^verbatim>\<open>yield\<close> and has not
  been woken, and the caller is in \<^verbatim>\<open>resume()\<close> before its notification.
\<close>

definition window_step :: "action \<Rightarrow> 'v coroutine \<Rightarrow> 'v coroutine \<Rightarrow> bool \<Rightarrow> bool" where
  "window_step a s s' w =
     (if a = Invoke Resume then False
      else if length (published s) < length (published s') then True
      else w)"

fun window :: "bool \<Rightarrow> action list \<Rightarrow> 'v coroutine \<Rightarrow> bool \<Rightarrow> bool" where
  "window ndebug [] s w = w"
| "window ndebug (a # as) s w =
     (case step ndebug a s of
        None \<Rightarrow> w
      | Some s' \<Rightarrow> window ndebug as s' (window_step a s s' w))"

fun fresh :: "'v worker_pc \<Rightarrow> bool" where
  "fresh (InYield pc v k hs) = (pc \<in> {YieldFlag, YieldNotify, YieldWait, YieldBlocked})"
| "fresh p = False"

fun issued :: "'v caller_pc \<Rightarrow> bool" where
  "issued (InResume pc) = (pc \<in> {ResumeLock, ResumeAssert, ResumeTest, ResumeNotify})"
| "issued p = False"

definition window_inv :: "'v coroutine \<Rightarrow> bool \<Rightarrow> bool" where
  "window_inv s w =
     (\<not> destroying (caller s) \<longrightarrow> (w \<longleftrightarrow> fresh (thread s) \<and> \<not> issued (caller s)))"

definition in_window :: "bool \<Rightarrow> action list \<Rightarrow> 'v body \<Rightarrow> bool" where
  "in_window ndebug as func = window ndebug as (init func) False"

subsection \<open>Both threads in user code\<close>

fun in_body :: "'v worker_pc \<Rightarrow> bool" where
  "in_body (InBody b) = True"
| "in_body p = False"

definition both_in_user_code :: "'v coroutine \<Rightarrow> bool" where
  "both_in_user_code s = (caller s = User \<and> in_body (thread s))"

section \<open>Executions and steps\<close>

lemma exec_append:
  "exec nd (as @ bs) s = (case exec nd as s of None \<Rightarrow> None | Some s' \<Rightarrow> exec nd bs s')"
  by (induction as arbitrary: s) (auto split: option.splits)

lemma exec_invariant:
  assumes "exec nd as s = Some t" and "P s"
    and "\<And>a u u'. P u \<Longrightarrow> step nd a u = Some u' \<Longrightarrow> P u'"
  shows "P t"
  using assms(1,2)
proof (induction as arbitrary: s)
  case Nil
  then show ?case by simp
next
  case (Cons a as)
  then show ?case by (auto split: option.splits dest: assms(3))
qed

lemma exec_invariant_notified:
  assumes "exec nd as s = Some t" and "notified_only as" and "P s"
    and "\<And>a u u'. P u \<Longrightarrow> \<not> is_spurious a \<Longrightarrow> step nd a u = Some u' \<Longrightarrow> P u'"
  shows "P t"
  using assms(1,2,3)
proof (induction as arbitrary: s)
  case Nil
  then show ?case by simp
next
  case (Cons a as)
  from Cons.prems obtain u where u: "step nd a s = Some u" "exec nd as u = Some t"
    by (auto split: option.splits)
  from Cons.prems have "\<not> is_spurious a" "notified_only as"
    by (simp_all add: notified_only_def)
  with u Cons.prems(3) Cons.IH assms(4) show ?case by blast
qed

lemma step_cases [consumes 1, case_names Construct Resume Destruct Body Yield Run Invoke SpuriousCaller SpuriousWorker]:
  assumes "step nd a s = Some s'"
  obtains pc f where "a = Step Caller" "caller s = InCtor pc f" "construct pc f s = Some s'"
  | pc where "a = Step Caller" "caller s = InResume pc" "resume nd pc s = Some s'"
  | pc where "a = Step Caller" "caller s = InDtor pc" "destruct pc s = Some s'"
  | b where "a = Step Worker" "thread s = InBody b" "s' = run_body b s"
  | pc v k hs where "a = Step Worker" "thread s = InYield pc v k hs" "yield pc v k hs s = Some s'"
  | pc where "a = Step Worker" "thread s = InRun pc" "run pc s = Some s'"
  | f where "a = Invoke f" "caller s = User" "s' = invoke nd f s"
  | "a = Spurious Caller" "s' = s\<lparr>caller := wake_caller (caller s)\<rparr>"
  | "a = Spurious Worker" "s' = s\<lparr>thread := wake_worker (thread s)\<rparr>"
proof (cases a)
  case (Step t)
  show ?thesis
  proof (cases t)
    case Caller
    with Step assms that(1-3) show ?thesis
      by (cases "caller s") (auto split: if_splits)
  next
    case Worker
    with Step assms that(4-6) show ?thesis
      by (cases "thread s") (auto split: if_splits)
  qed
next
  case (Invoke f)
  with assms that(7) show ?thesis by (auto split: if_splits)
next
  case (Spurious t)
  with assms that(8,9) show ?thesis by (cases t) (auto split: if_splits)
qed

section \<open>The mutex is held by the thread inside a critical section\<close>

lemma caller_holds_wake [simp]: "caller_holds (wake_caller c) = caller_holds c"
  by (cases c rule: wake_caller.cases) auto

lemma worker_holds_wake [simp]: "worker_holds (wake_worker w) = worker_holds w"
  by (cases w rule: wake_worker.cases) auto

lemma lock_inv_construct:
  "construct pc f s = Some s' \<Longrightarrow> caller s = InCtor pc f \<Longrightarrow> lock_inv s \<Longrightarrow> lock_inv s'"
  by (cases pc) (auto simp: lock_inv_def lock_def unlock_def split: if_splits)

lemma lock_inv_resume:
  "resume nd pc s = Some s' \<Longrightarrow> caller s = InResume pc \<Longrightarrow> lock_inv s \<Longrightarrow> lock_inv s'"
  by (cases pc) (auto simp: lock_inv_def lock_def unlock_def notify_all_def split: if_splits)

lemma lock_inv_destruct:
  "destruct pc s = Some s' \<Longrightarrow> caller s = InDtor pc \<Longrightarrow> lock_inv s \<Longrightarrow> lock_inv s'"
  by (cases pc) (auto simp: lock_inv_def lock_def unlock_def notify_all_def split: if_splits)

lemma lock_inv_yield:
  "yield pc v k hs s = Some s' \<Longrightarrow> thread s = InYield pc v k hs \<Longrightarrow> lock_inv s \<Longrightarrow> lock_inv s'"
  by (cases pc) (auto simp: lock_inv_def lock_def unlock_def notify_all_def split: if_splits option.splits)

lemma lock_inv_run:
  "run pc s = Some s' \<Longrightarrow> thread s = InRun pc \<Longrightarrow> lock_inv s \<Longrightarrow> lock_inv s'"
  by (cases pc) (auto simp: lock_inv_def lock_def unlock_def notify_all_def split: if_splits)

lemma lock_inv_run_body:
  "thread s = InBody b \<Longrightarrow> lock_inv s \<Longrightarrow> lock_inv (run_body b s)"
  by (cases b) (auto simp: lock_inv_def run_body_def)

lemma lock_inv_step:
  assumes "lock_inv s" "step nd a s = Some s'"
  shows "lock_inv s'"
  using assms(2)
proof (cases rule: step_cases)
  case (Invoke f)
  with assms(1) show ?thesis by (cases f) (auto simp: lock_inv_def get_def split: if_splits)
next
  case SpuriousCaller
  with assms(1) show ?thesis by (simp add: lock_inv_def)
next
  case SpuriousWorker
  with assms(1) show ?thesis by (simp add: lock_inv_def)
qed (use assms(1) in \<open>blast intro: lock_inv_construct lock_inv_resume lock_inv_destruct
       lock_inv_yield lock_inv_run lock_inv_run_body\<close>)+

lemma lock_inv_init: "lock_inv (init f)"
  by (simp add: lock_inv_def init_def)

lemma lock_inv_exec: "exec nd as (init f) = Some s \<Longrightarrow> lock_inv s"
  by (erule exec_invariant [where P = lock_inv]) (auto intro: lock_inv_init lock_inv_step)

lemma lock_inv_free:
  "lock_inv s \<Longrightarrow> \<not> caller_holds (caller s) \<Longrightarrow> \<not> worker_holds (thread s) \<Longrightarrow> mutex s = None"
  by (cases "mutex s"; simp add: lock_inv_def) (metis tid.exhaust)

section \<open>The slot holds the last value assigned by yield\<close>

lemma flagging_wake [simp]: "flagging (wake_worker w) = flagging w"
  by (cases w rule: wake_worker.cases) auto

lemma slot_inv_step:
  assumes "slot_inv s" "step nd a s = Some s'"
  shows "slot_inv s'"
  using assms(2)
proof (cases rule: step_cases)
  case (Construct pc f)
  with assms(1) show ?thesis
    by (cases pc) (auto simp: slot_inv_def lock_def unlock_def split: if_splits)
next
  case (Resume pc)
  with assms(1) show ?thesis
    by (cases pc) (auto simp: slot_inv_def lock_def unlock_def notify_all_def split: if_splits)
next
  case (Destruct pc)
  with assms(1) show ?thesis
    by (cases pc) (auto simp: slot_inv_def lock_def unlock_def notify_all_def split: if_splits)
next
  case (Body b)
  with assms(1) show ?thesis
    by (cases b) (auto simp: slot_inv_def run_body_def)
next
  case (Yield pc v k hs)
  with assms(1) show ?thesis
    by (cases pc)
       (auto simp: slot_inv_def lock_def unlock_def notify_all_def split: if_splits option.splits)
next
  case (Run pc)
  with assms(1) show ?thesis
    by (cases pc) (auto simp: slot_inv_def lock_def unlock_def notify_all_def split: if_splits)
next
  case (Invoke f)
  with assms(1) show ?thesis
    by (cases f) (auto simp: slot_inv_def get_def)
qed (use assms(1) in \<open>auto simp: slot_inv_def\<close>)

lemma slot_inv_exec: "exec nd as (init f) = Some s \<Longrightarrow> slot_inv s"
proof (erule exec_invariant)
  show "slot_inv (init f)" by (simp add: slot_inv_def init_def)
qed (rule slot_inv_step)

section \<open>The termination flag only goes from false to true\<close>

lemma cancelled_wake [simp]: "cancelled (wake_caller c) = cancelled c"
  by (cases c rule: wake_caller.cases) auto

lemma returned_wake [simp]: "returned (wake_worker w) = returned w"
  by (cases w rule: wake_worker.cases) auto

lemma quit_inv_step:
  assumes "quit_inv s" "step nd a s = Some s'"
  shows "quit_inv s'"
  using assms(2)
proof (cases rule: step_cases)
  case (Construct pc f)
  with assms(1) show ?thesis
    by (cases pc) (auto simp: quit_inv_def lock_def unlock_def split: if_splits)
next
  case (Resume pc)
  with assms(1) show ?thesis
    by (cases pc) (auto simp: quit_inv_def lock_def unlock_def notify_all_def split: if_splits)
next
  case (Destruct pc)
  with assms(1) show ?thesis
    by (cases pc) (auto simp: quit_inv_def lock_def unlock_def notify_all_def split: if_splits)
next
  case (Body b)
  with assms(1) show ?thesis
    by (cases b) (auto simp: quit_inv_def run_body_def)
next
  case (Yield pc v k hs)
  with assms(1) show ?thesis
    by (cases pc)
       (auto simp: quit_inv_def lock_def unlock_def notify_all_def split: if_splits option.splits)
next
  case (Run pc)
  with assms(1) show ?thesis
    by (cases pc) (auto simp: quit_inv_def lock_def unlock_def notify_all_def split: if_splits)
next
  case (Invoke f)
  with assms(1) show ?thesis
    by (cases f) (auto simp: quit_inv_def get_def)
qed (use assms(1) in \<open>auto simp: quit_inv_def\<close>)

lemma quit_inv_exec: "exec nd as (init f) = Some s \<Longrightarrow> quit_inv s"
proof (erule exec_invariant)
  show "quit_inv (init f)" by (simp add: quit_inv_def init_def)
qed (rule quit_inv_step)

lemma quit_change_step:
  assumes "step nd a s = Some s'"
  shows "quit_change a s s' =
     (if quit s \<or> \<not> quit s' then []
      else if a = Step Worker then [SetByRun] else [SetByDestructor])
     \<and> (quit s \<longrightarrow> quit s')"
  using assms
proof (cases rule: step_cases)
  case (Construct pc f)
  then show ?thesis
    by (cases pc) (auto simp: quit_change_def lock_def unlock_def split: if_splits)
next
  case (Resume pc)
  then show ?thesis
    by (cases pc) (auto simp: quit_change_def lock_def unlock_def notify_all_def split: if_splits)
next
  case (Destruct pc)
  then show ?thesis
    by (cases pc) (auto simp: quit_change_def lock_def unlock_def notify_all_def split: if_splits)
next
  case (Body b)
  then show ?thesis
    by (cases b) (auto simp: quit_change_def run_body_def)
next
  case (Yield pc v k hs)
  then show ?thesis
    by (cases pc)
       (auto simp: quit_change_def lock_def unlock_def notify_all_def split: if_splits option.splits)
next
  case (Run pc)
  then show ?thesis
    by (cases pc) (auto simp: quit_change_def lock_def unlock_def notify_all_def split: if_splits)
next
  case (Invoke f)
  then show ?thesis
    by (cases f) (auto simp: quit_change_def get_def split: if_splits)
qed (auto simp: quit_change_def)

lemma quit_changes_from:
  "exec nd as s = Some t \<Longrightarrow>
     (quit s \<longrightarrow> quit t \<and> quit_changes nd as s = []) \<and>
     (\<not> quit s \<longrightarrow> (if quit t then quit_changes nd as s \<in> {[SetByRun], [SetByDestructor]}
                      else quit_changes nd as s = []))"
proof (induction as arbitrary: s)
  case Nil
  then show ?case by simp
next
  case (Cons a as)
  from Cons.prems obtain u where u: "step nd a s = Some u" "exec nd as u = Some t"
    by (auto split: option.splits)
  from quit_change_step[OF u(1)] Cons.IH[OF u(2)] u(1) show ?case
    by (auto split: if_splits)
qed

section \<open>The handshake when every wake-up is a notification\<close>

lemma caller_cases [case_names CtorLock CtorSpawn CtorWait CtorBlocked CtorWoken CtorReturn User
    ResumeLock ResumeAssert ResumeTest ResumeNotify ResumeWait ResumeBlocked ResumeWoken ResumeReturn
    DtorLock DtorQuit DtorFlag DtorUnlock DtorNotify DtorJoin Destroyed]:
  fixes c :: "'v caller_pc"
  obtains f where "c = InCtor CtorLock f" | f where "c = InCtor CtorSpawn f"
  | f where "c = InCtor CtorWait f" | f where "c = InCtor CtorBlocked f"
  | f where "c = InCtor CtorWoken f" | f where "c = InCtor CtorReturn f"
  | "c = User"
  | "c = InResume ResumeLock" | "c = InResume ResumeAssert" | "c = InResume ResumeTest"
  | "c = InResume ResumeNotify" | "c = InResume ResumeWait" | "c = InResume ResumeBlocked"
  | "c = InResume ResumeWoken" | "c = InResume ResumeReturn"
  | "c = InDtor DtorLock" | "c = InDtor DtorQuit" | "c = InDtor DtorFlag"
  | "c = InDtor DtorUnlock" | "c = InDtor DtorNotify" | "c = InDtor DtorJoin"
  | "c = Destroyed"
proof (cases c)
  case (InCtor pc f)
  then show ?thesis using that(1-6) by (cases pc) blast+
next
  case User
  then show ?thesis using that(7) by blast
next
  case (InResume pc)
  then show ?thesis using that(8-15) by (cases pc) blast+
next
  case (InDtor pc)
  then show ?thesis using that(16-21) by (cases pc) blast+
next
  case Destroyed
  then show ?thesis using that(22) by blast
qed

lemma handshake_init: "handshake (init f)"
  by (simp add: handshake_def init_def)

lemma handshake_construct:
  "construct pc f s = Some s' \<Longrightarrow> caller s = InCtor pc f \<Longrightarrow> lock_inv s \<Longrightarrow> handshake s
     \<Longrightarrow> handshake s'"
  by (cases pc; cases "thread s")
     (auto simp: handshake_def lock_inv_def lock_def unlock_def split: if_splits)

lemma handshake_resume:
  "resume nd pc s = Some s' \<Longrightarrow> caller s = InResume pc \<Longrightarrow> lock_inv s \<Longrightarrow> handshake s
     \<Longrightarrow> handshake s'"
  by (cases pc; cases "thread s")
     (auto simp: handshake_def lock_inv_def lock_def unlock_def notify_all_def split: if_splits)

lemma handshake_destruct:
  "destruct pc s = Some s' \<Longrightarrow> caller s = InDtor pc \<Longrightarrow> lock_inv s \<Longrightarrow> handshake s
     \<Longrightarrow> handshake s'"
  by (cases pc; cases "thread s")
     (auto simp: handshake_def lock_inv_def lock_def unlock_def notify_all_def split: if_splits)

lemma handshake_yield:
  "yield pc v k hs s = Some s' \<Longrightarrow> thread s = InYield pc v k hs \<Longrightarrow> lock_inv s \<Longrightarrow> handshake s
     \<Longrightarrow> handshake s'"
  by (cases pc; cases "caller s" rule: caller_cases)
     (auto simp: handshake_def lock_inv_def lock_def unlock_def notify_all_def
           split: if_splits option.splits)


lemma handshake_run:
  "run pc s = Some s' \<Longrightarrow> thread s = InRun pc \<Longrightarrow> lock_inv s \<Longrightarrow> handshake s
     \<Longrightarrow> handshake s'"
  by (cases pc; cases "caller s" rule: caller_cases)
     (auto simp: handshake_def lock_inv_def lock_def unlock_def notify_all_def
           split: if_splits)

lemma handshake_run_body:
  "thread s = InBody b \<Longrightarrow> handshake s \<Longrightarrow> handshake (run_body b s)"
  by (cases b; cases "caller s" rule: caller_cases)
     (auto simp: handshake_def run_body_def)

lemma handshake_invoke:
  "caller s = User \<Longrightarrow> handshake s \<Longrightarrow> handshake (invoke nd f s)"
  by (cases f) (auto simp: handshake_def get_def)

lemma handshake_step:
  assumes "handshake s" "lock_inv s" "\<not> is_spurious a" "step nd a s = Some s'"
  shows "handshake s'"
  using assms(4)
proof (cases rule: step_cases)
qed (use assms(1-3) in \<open>auto intro: handshake_construct handshake_resume handshake_destruct
      handshake_yield handshake_run handshake_run_body handshake_invoke\<close>)

section \<open>Running the model on concrete schedules\<close>

lemmas run_simps = construct_run_def resume_run_def destroy_run_def init_def lock_def unlock_def
  notify_all_def run_body_def get_def numeral_eq_Suc

section \<open>Bodies that yield a list of values\<close>

lemma lock_eq_Some [simp]: "lock t s = Some s' \<longleftrightarrow> mutex s = None \<and> s' = s\<lparr>mutex := Some t\<rparr>"
  by (auto simp: lock_def)







lemma turns_wake [simp]: "turns (wake_caller c) r = turns c r"
  by (cases c rule: wake_caller.cases) auto

lemma constructing_wake [simp]: "constructing f r (wake_caller c) = constructing f r c"
  by (cases c rule: wake_caller.cases) auto

lemma destroying_wake [simp]: "destroying (wake_caller c) = destroying c"
  by (cases c rule: wake_caller.cases) auto





lemma coherent_exec:
  assumes "exec nd as (init f) = Some s" "notified_only as"
  shows "lock_inv s \<and> handshake s"
  using assms
  by (rule exec_invariant_notified)
     (auto intro: lock_inv_init handshake_init lock_inv_step handshake_step)


lemma parked_cases:
  assumes "parked w"
  obtains v k hs where "w = InYield YieldBlocked v k hs" | "w = Exited"
  using assms by (cases w) auto

lemma caller_runs_while_worker_parked:
  assumes "exec nd as (init f) = Some s" "notified_only as" "caller s = User"
  shows "mutex s = None \<and>
    ((\<exists>v k hs. thread s = InYield YieldBlocked v k hs) \<and> \<not> quit s \<and> canGetValue s \<or>
     thread s = Exited \<and> quit s \<and> \<not> canGetValue s)"
proof -
  from coherent_exec[OF assms(1,2)] have c: "lock_inv s" "handshake s"
    by simp_all
  from c(2) assms(3) have p: "parked (thread s)"
    and q: "slot_state (thread s) (quit s) (canGetValue s)"
    by (simp_all add: handshake_def)
  from p have "\<not> worker_holds (thread s)" by (cases rule: parked_cases) auto
  with c(1) assms(3) have "mutex s = None" by (auto intro: lock_inv_free)
  with p q show ?thesis by (cases rule: parked_cases) auto
qed


lemma catches_InterruptedException_iff:
  "catches_InterruptedException c \<longleftrightarrow> c \<noteq> CatchUnrelated"
  by (cases c) simp_all

lemma find_handler_None:
  "find_handler hs = None \<longleftrightarrow> (\<forall>(c, h) \<in> set hs. c = CatchUnrelated)"
  by (induction hs) (auto simp: catches_InterruptedException_iff split: if_splits)

lemma find_handler_Some:
  "find_handler hs = Some h \<Longrightarrow> \<exists>c. (c, h) \<in> set hs \<and> c \<noteq> CatchUnrelated"
  by (induction hs) (auto simp: catches_InterruptedException_iff split: if_splits)

lemma alternation_when_notified_only:
  assumes "exec ndebug as (init func) = Some s" and "notified_only as"
  shows "\<not> both_in_user_code s"
  using caller_runs_while_worker_parked [OF assms]
  by (auto simp: both_in_user_code_def)

lemma quit_exec: "exec nd as s = Some t \<Longrightarrow> quit s \<Longrightarrow> quit t"
  using quit_changes_from by blast




section \<open>The window and the flag\<close>

lemma issued_wake [simp]: "issued (wake_caller c) = issued c"
  by (cases c rule: wake_caller.cases) auto

lemma window_inv_construct:
  assumes "construct pc f s = Some s'" "caller s = InCtor pc f" "handshake s" "window_inv s w"
  shows "window_inv s' (window_step (Step Caller) s s' w)"
  using assms
  by (cases pc) (auto simp: window_inv_def window_step_def handshake_def unlock_def)

lemma window_inv_resume:
  assumes "resume nd pc s = Some s'" "caller s = InResume pc" "handshake s" "window_inv s w"
  shows "window_inv s' (window_step (Step Caller) s s' w)"
proof (cases pc)
  case ResumeNotify
  with assms(2,3) obtain v k hs where "thread s = InYield YieldBlocked v k hs"
    by (auto simp: handshake_def)
  with ResumeNotify assms show ?thesis
    by (auto simp: window_inv_def window_step_def notify_all_def)
next
  case ResumeTest
  with assms(2,3) have "quit s \<longrightarrow> \<not> fresh (thread s)"
    by (cases "thread s") (auto simp: handshake_def)
  with ResumeTest assms show ?thesis
    by (auto simp: window_inv_def window_step_def split: if_splits)
qed (use assms in \<open>auto simp: window_inv_def window_step_def unlock_def split: if_splits\<close>)

lemma window_inv_destruct:
  assumes "destruct pc s = Some s'" "caller s = InDtor pc"
  shows "window_inv s' w'"
  using assms
  by (cases pc) (auto simp: window_inv_def unlock_def notify_all_def split: if_splits)

lemma window_inv_invoke:
  assumes "caller s = User" "window_inv s w"
  shows "window_inv (invoke nd f s) (window_step (Invoke f) s (invoke nd f s) w)"
  using assms
  by (cases f) (auto simp: window_inv_def window_step_def get_def)

lemma window_inv_run_body:
  assumes "thread s = InBody b" "window_inv s w"
  shows "window_inv (run_body b s) (window_step (Step Worker) s (run_body b s) w)"
  using assms
  by (cases b) (auto simp: window_inv_def window_step_def run_body_def)

lemma window_inv_run:
  assumes "run pc s = Some s'" "thread s = InRun pc" "window_inv s w"
  shows "window_inv s' (window_step (Step Worker) s s' w)"
  using assms
  by (cases pc) (auto simp: window_inv_def window_step_def unlock_def notify_all_def)

lemma storing_caller:
  assumes "handshake s" "thread s = InYield YieldStore v k hs" "\<not> destroying (caller s)"
  shows "\<not> issued (caller s)"
  using assms
  by (cases "caller s" rule: caller_cases) (auto simp: handshake_def)

lemma window_inv_yield:
  assumes "yield pc v k hs s = Some s'" "thread s = InYield pc v k hs" "handshake s"
    "window_inv s w"
  shows "window_inv s' (window_step (Step Worker) s s' w)"
proof (cases pc)
  case YieldStore
  with assms storing_caller [OF assms(3)] show ?thesis
    by (auto simp: window_inv_def window_step_def)
qed (use assms in \<open>auto simp: window_inv_def window_step_def unlock_def notify_all_def
       split: option.splits if_splits\<close>)

lemma window_inv_step:
  assumes "window_inv s w" "handshake s" "\<not> is_spurious a" "step nd a s = Some s'"
  shows "window_inv s' (window_step a s s' w)"
  using assms(4)
proof (cases rule: step_cases)
  case (Destruct pc)
  then show ?thesis by (blast intro: window_inv_destruct)
qed (use assms(1-3) in \<open>auto intro: window_inv_construct window_inv_resume
      window_inv_yield window_inv_run window_inv_run_body window_inv_invoke\<close>)

lemma window_inv_exec:
  assumes "exec nd as s = Some t" "notified_only as" "lock_inv s" "handshake s" "window_inv s w"
  shows "window_inv t (window nd as s w)"
  using assms
proof (induction as arbitrary: s w)
  case Nil
  then show ?case by simp
next
  case (Cons a as)
  from Cons.prems(1) obtain u where u: "step nd a s = Some u" "exec nd as u = Some t"
    by (auto split: option.splits)
  from Cons.prems(2) have n: "\<not> is_spurious a" "notified_only as"
    by (simp_all add: notified_only_def)
  from u(1) Cons.prems n(1) have "lock_inv u" "handshake u" "window_inv u (window_step a s u w)"
    by (auto intro: lock_inv_step handshake_step window_inv_step)
  from Cons.IH [OF u(2) n(2) this] u(1) show ?case by simp
qed

lemma window_inv_init: "window_inv (init f) False"
  by (simp add: window_inv_def init_def)

section \<open>The claims\<close>




text \<open>
  C2, as the code has it. \<^verbatim>\<open>run\<close> catches \<^verbatim>\<open>InterruptedException\<close> only. When the
  body leaves by any other exception, the next step of the worker terminates the process
  and nothing runs afterwards: the error is stored nowhere in the coroutine, and the call
  the caller is in does not return.
\<close>

theorem body_error_terminates:
  assumes "exec ndebug as (init func) = Some s" and "thread s = InBody Throw"
    and "crashed s = None"
  shows "exec ndebug (as @ [Step Worker]) (init func) = Some (s\<lparr>crashed := Some Terminate\<rparr>) \<and>
         (\<forall>a bs. exec ndebug (as @ Step Worker # a # bs) (init func) = None)"
  using assms by (simp add: exec_append run_body_def)

theorem body_error_terminates_witness:
  "exec False (construct_run @ resume_run @ Invoke Resume # replicate 5 (Step Caller)
        @ replicate 2 (Step Worker)) (init throws_after_two) =
     Some \<lparr>quit = False, canGetValue = True, result = Some 2, mutex = None,
       caller = InResume ResumeBlocked, thread = InBody Throw, crashed = None,
       published = [1, 2], resumes = 1, intercepted = False\<rparr> \<and>
   exec False ((construct_run @ resume_run @ Invoke Resume # replicate 5 (Step Caller)
        @ replicate 2 (Step Worker)) @ [Step Worker]) (init throws_after_two) =
     Some \<lparr>quit = False, canGetValue = True, result = Some 2, mutex = None,
       caller = InResume ResumeBlocked, thread = InBody Throw, crashed = Some Terminate,
       published = [1, 2], resumes = 1, intercepted = False\<rparr>"
  using body_error_terminates [of False "construct_run @ resume_run @ Invoke Resume #
      replicate 5 (Step Caller) @ replicate 2 (Step Worker)" throws_after_two
      "\<lparr>quit = False, canGetValue = True, result = Some 2, mutex = None,
       caller = InResume ResumeBlocked, thread = InBody Throw, crashed = None,
       published = [1, 2], resumes = 1, intercepted = False\<rparr>"]
  by (simp add: run_simps throws_after_two_def)

text \<open>
  C2 as stated fails: the body yields 1 and 2 and then throws. During the second
  \<^verbatim>\<open>resume()\<close> the process is terminated, with the caller still blocked in that call;
  no later step of the caller exists.
\<close>

theorem body_error_counterexample:
  "map_option crashed
     (exec False (construct_run @ resume_run @ Invoke Resume # replicate 5 (Step Caller)
        @ replicate 3 (Step Worker)) (init throws_after_two)) = Some (Some Terminate) \<and>
   map_option caller
     (exec False (construct_run @ resume_run @ Invoke Resume # replicate 5 (Step Caller)
        @ replicate 3 (Step Worker)) (init throws_after_two)) = Some (InResume ResumeBlocked) \<and>
   exec False (construct_run @ resume_run @ Invoke Resume # replicate 5 (Step Caller)
        @ replicate 3 (Step Worker) @ [Step Caller]) (init throws_after_two) = None"
  by (simp add: run_simps throws_after_two_def)

text \<open>
  C3, as the code has it. When \<^verbatim>\<open>yield\<close> finds \<^verbatim>\<open>quit\<close> set after its wait, it throws
  \<^verbatim>\<open>InterruptedException\<close>, a class derived from \<^verbatim>\<open>std::exception\<close>. If every handler
  the body has open around the call is for an unrelated type, the exception unwinds the
  body and the thread function returns, the body having observed nothing. If one of them
  is a catch-all or a handler for \<^verbatim>\<open>std::exception\<close>, the innermost such handler catches
  the exception and the body goes on there.
\<close>

theorem interrupted_delivery:
  assumes "thread s = InYield YieldTest v k hs" and "quit s" and "crashed s = None"
  shows "((\<forall>(c, h) \<in> set hs. c = CatchUnrelated) \<longrightarrow>
            step ndebug (Step Worker) s = Some ((unlock s)\<lparr>thread := Exited\<rparr>)) \<and>
         ((\<exists>(c, h) \<in> set hs. c \<noteq> CatchUnrelated) \<longrightarrow>
            (\<exists>c h. (c, h) \<in> set hs \<and> c \<noteq> CatchUnrelated \<and> find_handler hs = Some h \<and>
               step ndebug (Step Worker) s =
                 Some ((unlock s)\<lparr>thread := InBody h, intercepted := True\<rparr>)))"
proof (cases "find_handler hs")
  case None
  with assms find_handler_None [of hs] show ?thesis by auto
next
  case (Some h)
  from find_handler_Some [OF Some] obtain c where "(c, h) \<in> set hs" "c \<noteq> CatchUnrelated"
    by blast
  with Some assms find_handler_None [of hs] show ?thesis by auto
qed

theorem interrupted_delivery_witness:
  "step False (Step Worker)
     \<lparr>quit = True, canGetValue = False, result = Some 1, mutex = Some Worker,
       caller = InDtor DtorJoin, thread = InYield YieldTest (1::nat) Return [(CatchUnrelated, Return)],
       crashed = None, published = [1], resumes = 0, intercepted = False\<rparr> =
     Some \<lparr>quit = True, canGetValue = False, result = Some 1, mutex = None,
       caller = InDtor DtorJoin, thread = Exited,
       crashed = None, published = [1], resumes = 0, intercepted = False\<rparr> \<and>
   step False (Step Worker)
     \<lparr>quit = True, canGetValue = False, result = Some 1, mutex = Some Worker,
       caller = InDtor DtorJoin, thread = InYield YieldTest (1::nat) Return [(CatchAll, Work Return)],
       crashed = None, published = [1], resumes = 0, intercepted = False\<rparr> =
     Some \<lparr>quit = True, canGetValue = False, result = Some 1, mutex = None,
       caller = InDtor DtorJoin, thread = InBody (Work Return),
       crashed = None, published = [1], resumes = 0, intercepted = True\<rparr>"
  using interrupted_delivery [of
      "\<lparr>quit = True, canGetValue = False, result = Some 1, mutex = Some Worker,
       caller = InDtor DtorJoin, thread = InYield YieldTest (1::nat) Return [(CatchUnrelated, Return)],
       crashed = None, published = [1], resumes = 0, intercepted = False\<rparr>"
      1 Return "[(CatchUnrelated, Return)]" False]
    interrupted_delivery [of
      "\<lparr>quit = True, canGetValue = False, result = Some 1, mutex = Some Worker,
       caller = InDtor DtorJoin, thread = InYield YieldTest (1::nat) Return [(CatchAll, Work Return)],
       crashed = None, published = [1], resumes = 0, intercepted = False\<rparr>"
      1 Return "[(CatchAll, Work Return)]" False]
  by (simp add: unlock_def)

text \<open>
  C3 as stated fails: the body calls \<^verbatim>\<open>yield(1)\<close> inside a handler for
  \<^verbatim>\<open>std::exception\<close>; the coroutine is destroyed while the body is suspended there, and
  the body's handler catches the signal and runs.
\<close>

theorem interrupted_caught_counterexample:
  "map_option intercepted
     (exec False (construct_run @ Invoke Destroy # replicate 5 (Step Caller)
        @ replicate 2 (Step Worker)) (init catches_and_reports)) = Some True \<and>
   map_option thread
     (exec False (construct_run @ Invoke Destroy # replicate 5 (Step Caller)
        @ replicate 2 (Step Worker)) (init catches_and_reports)) = Some (InBody (Work Return))"
  by (simp add: run_simps catches_and_reports_def)

text \<open>
  C4. The code at an execution in which the caller's wait in \<^verbatim>\<open>resume()\<close> (line 81, a
  \<^verbatim>\<open>wait\<close> with no predicate) is unblocked with no notification: the body yields 1 and
  2; the caller calls \<^verbatim>\<open>resume()\<close>, the worker leaves \<^verbatim>\<open>yield\<close> and is in the body
  again, the caller's wait returns, and \<^verbatim>\<open>resume()\<close> returns. Caller and worker are
  then both in user code. (\<open>alternation_when_notified_only\<close> above: this does not happen
  when every wake-up is a notification.)
\<close>

theorem spurious_wakeup_in_resume:
  "map_option both_in_user_code
     (exec False (construct_run @ Invoke Resume # replicate 5 (Step Caller)
        @ [Step Worker, Step Worker, Spurious Caller, Step Caller, Step Caller])
        (init (yields [1::nat, 2]))) = Some True"
  by (simp add: run_simps both_in_user_code_def)

text \<open>
  C5. Along every execution the termination flag \<^verbatim>\<open>quit\<close> changes at most once: it is
  never reset, and when it is true at the end it was set exactly once, either by
  \<^verbatim>\<open>run\<close> after the body returned or by the destructor. Once true it stays true
  whatever happens next, without any further change. It is true whenever the destructor
  has completed or the thread function has returned.
\<close>

theorem quit_set_once:
  assumes "exec ndebug as (init func) = Some s"
  shows "(\<not> quit s \<longrightarrow> quit_changes ndebug as (init func) = []) \<and>
         (quit s \<longrightarrow> quit_changes ndebug as (init func) = [SetByRun] \<or>
                     quit_changes ndebug as (init func) = [SetByDestructor]) \<and>
         (\<forall>bs t. quit s \<and> exec ndebug bs s = Some t \<longrightarrow>
                   quit t \<and> quit_changes ndebug bs s = []) \<and>
         (caller s = Destroyed \<or> thread s = Exited \<longrightarrow> quit s)"
proof -
  have "\<not> quit (init func)"
    by (simp add: init_def)
  with quit_changes_from [OF assms]
  have "if quit s then quit_changes ndebug as (init func) \<in> {[SetByRun], [SetByDestructor]}
        else quit_changes ndebug as (init func) = []"
    by simp
  moreover have "\<forall>bs t. quit s \<and> exec ndebug bs s = Some t \<longrightarrow>
                   quit t \<and> quit_changes ndebug bs s = []"
    using quit_changes_from by blast
  moreover have "caller s = Destroyed \<or> thread s = Exited \<longrightarrow> quit s"
    using quit_inv_exec [OF assms] by (auto simp: quit_inv_def)
  ultimately show ?thesis
    by (auto split: if_splits)
qed

theorem quit_set_once_witness:
  "exec False (construct_run @ destroy_run) (init (yields [1::nat])) =
     Some \<lparr>quit = True, canGetValue = False, result = Some 1, mutex = None,
       caller = Destroyed, thread = Exited, crashed = None, published = [1], resumes = 0,
       intercepted = False\<rparr> \<and>
   quit_changes False (construct_run @ destroy_run) (init (yields [1::nat])) = [SetByDestructor] \<and>
   exec False construct_run (init (yields [1::nat])) =
     Some \<lparr>quit = False, canGetValue = True, result = Some 1, mutex = None,
       caller = User, thread = InYield YieldBlocked 1 Return [], crashed = None,
       published = [1], resumes = 0, intercepted = False\<rparr> \<and>
   quit_changes False construct_run (init (yields [1::nat])) = [] \<and>
   quit_changes False construct_run (init (Return :: nat body)) = [SetByRun]"
  using quit_set_once [of False "construct_run @ destroy_run" "yields [1::nat]"
      "\<lparr>quit = True, canGetValue = False, result = Some 1, mutex = None,
        caller = Destroyed, thread = Exited, crashed = None, published = [1], resumes = 0,
        intercepted = False\<rparr>"]
    quit_set_once [of False construct_run "yields [1::nat]"
      "\<lparr>quit = False, canGetValue = True, result = Some 1, mutex = None,
       caller = User, thread = InYield YieldBlocked 1 Return [], crashed = None,
       published = [1], resumes = 0, intercepted = False\<rparr>"]
  by (simp add: run_simps quit_change_def)

text \<open>
  C6, as the code has it. Let \<^verbatim>\<open>quit\<close> be true in a state \<open>s\<close> of an execution, and let
  \<open>t\<close> be any later state of it (or \<open>s\<close> itself), in an execution where threads leave
  \<^verbatim>\<open>wait\<close> only when notified. If the body has not caught the cancellation signal and
  no thread is inside a critical section in \<open>t\<close>, then \<^verbatim>\<open>quit\<close> is still true and
  \<^verbatim>\<open>canGetValue\<close> is false in \<open>t\<close>. If moreover the caller is in its own code, the worker
  has finished, and \<^verbatim>\<open>resume()\<close> does not run it: without assertions the call returns
  with nothing changed, with assertions it fails line 77.
\<close>

theorem slot_invalid_after_quit:
  assumes "exec ndebug as (init func) = Some s" and "quit s" and "exec ndebug bs s = Some t"
    and "notified_only (as @ bs)" and "\<not> intercepted t" and "mutex t = None"
  shows "quit t \<and> \<not> canGetValue t \<and>
         (caller t = User \<and> crashed t = None \<longrightarrow>
            thread t = Exited \<and>
            exec True [Invoke Resume, Step Caller, Step Caller, Step Caller, Step Caller] t =
              Some (t\<lparr>resumes := Suc (resumes t)\<rparr>) \<and>
            exec False [Invoke Resume, Step Caller, Step Caller] t =
              Some (t\<lparr>mutex := Some Caller, caller := InResume ResumeAssert,
                      crashed := Some AssertionFailure\<rparr>))"
proof -
  from assms(1,3) have ex: "exec ndebug (as @ bs) (init func) = Some t"
    by (simp add: exec_append)
  from assms(2,3) have q: "quit t" by (rule quit_exec [rotated])
  from coherent_exec [OF ex assms(4)] have c: "lock_inv t" "handshake t"
    by simp_all
  have ncv: "\<not> canGetValue t"
  proof (cases "caller t" rule: caller_cases)
    case DtorLock
    with c q assms(5,6) show ?thesis
      by (cases "thread t") (auto simp: handshake_def lock_inv_def)
  qed (use c q assms(5,6) in \<open>(cases "thread t"; auto simp: handshake_def lock_inv_def)+\<close>)
  have "caller t = User \<longrightarrow> thread t = Exited"
    using c q by (cases "thread t") (auto simp: handshake_def)
  with q ncv assms(6) show ?thesis
    by (simp add: lock_def unlock_def)
qed

theorem slot_invalid_after_quit_witness:
  "exec False (construct_run @ [Invoke Destroy, Step Caller, Step Caller])
     (init (yields [1::nat])) =
     Some \<lparr>quit = True, canGetValue = True, result = Some 1, mutex = Some Caller,
       caller = InDtor DtorFlag, thread = InYield YieldBlocked 1 Return [], crashed = None,
       published = [1], resumes = 0, intercepted = False\<rparr> \<and>
   exec False (replicate 3 (Step Caller) @ replicate 2 (Step Worker) @ [Step Caller])
     \<lparr>quit = True, canGetValue = True, result = Some 1, mutex = Some Caller,
       caller = InDtor DtorFlag, thread = InYield YieldBlocked 1 Return [], crashed = None,
       published = [1], resumes = 0, intercepted = False\<rparr> =
     Some \<lparr>quit = True, canGetValue = False, result = Some (1::nat), mutex = None,
       caller = Destroyed, thread = Exited, crashed = None,
       published = [1], resumes = 0, intercepted = False\<rparr> \<and>
   exec False (construct_run @ resume_run) (init (yields [1::nat])) =
     Some \<lparr>quit = True, canGetValue = False, result = Some 1, mutex = None,
       caller = User, thread = Exited, crashed = None,
       published = [1], resumes = 1, intercepted = False\<rparr> \<and>
   exec True [Invoke Resume, Step Caller, Step Caller, Step Caller, Step Caller]
     \<lparr>quit = True, canGetValue = False, result = Some (1::nat), mutex = None,
       caller = User, thread = Exited, crashed = None,
       published = [1], resumes = 1, intercepted = False\<rparr> =
     Some \<lparr>quit = True, canGetValue = False, result = Some (1::nat), mutex = None,
       caller = User, thread = Exited, crashed = None,
       published = [1], resumes = 2, intercepted = False\<rparr>"
  using slot_invalid_after_quit [of False "construct_run @ [Invoke Destroy, Step Caller, Step Caller]"
      "yields [1::nat]"
      "\<lparr>quit = True, canGetValue = True, result = Some 1, mutex = Some Caller,
       caller = InDtor DtorFlag, thread = InYield YieldBlocked 1 Return [], crashed = None,
       published = [1], resumes = 0, intercepted = False\<rparr>"
      "replicate 3 (Step Caller) @ replicate 2 (Step Worker) @ [Step Caller]"
      "\<lparr>quit = True, canGetValue = False, result = Some (1::nat), mutex = None,
       caller = Destroyed, thread = Exited, crashed = None,
       published = [1], resumes = 0, intercepted = False\<rparr>"]
    slot_invalid_after_quit [of False "construct_run @ resume_run" "yields [1::nat]"
      "\<lparr>quit = True, canGetValue = False, result = Some (1::nat), mutex = None,
       caller = User, thread = Exited, crashed = None,
       published = [1], resumes = 1, intercepted = False\<rparr>"
      "[]"
      "\<lparr>quit = True, canGetValue = False, result = Some (1::nat), mutex = None,
       caller = User, thread = Exited, crashed = None,
       published = [1], resumes = 1, intercepted = False\<rparr>"]
  by (simp add: run_simps notified_only_def)

text \<open>
  C6 as stated fails: the body calls \<^verbatim>\<open>yield(1)\<close> inside a catch-all handler that
  calls \<^verbatim>\<open>yield(2)\<close>. The coroutine is destroyed while the body is suspended in the first
  call; the handler catches the signal, and the second call publishes its value: with
  \<^verbatim>\<open>quit\<close> true, \<^verbatim>\<open>canGetValue\<close> is true again, and no thread is inside a critical
  section.
\<close>

theorem yield_after_quit_counterexample:
  "map_option quit
     (exec False (construct_run @ Invoke Destroy # replicate 5 (Step Caller)
        @ replicate 8 (Step Worker)) (init catches_and_yields)) = Some True \<and>
   map_option canGetValue
     (exec False (construct_run @ Invoke Destroy # replicate 5 (Step Caller)
        @ replicate 8 (Step Worker)) (init catches_and_yields)) = Some True \<and>
   map_option mutex
     (exec False (construct_run @ Invoke Destroy # replicate 5 (Step Caller)
        @ replicate 8 (Step Worker)) (init catches_and_yields)) = Some None"
  by (simp add: run_simps catches_and_yields_def)

text \<open>
  C7, as the code has it. In an execution in which threads leave \<^verbatim>\<open>wait\<close> only when
  notified, let the caller be in its own code. If a yield has published a value and no
  \<^verbatim>\<open>resume()\<close> has been called since, \<^verbatim>\<open>canGetValue\<close> holds, and \<^verbatim>\<open>get()\<close>
  returns the last value published, without failing its assertion and without changing
  the state. Otherwise \<^verbatim>\<open>canGetValue\<close> does not hold: with assertions compiled in,
  \<^verbatim>\<open>get()\<close> fails line 64 and the process is aborted, nothing runs afterwards; with
  \<^verbatim>\<open>NDEBUG\<close> the assertion is gone, and \<^verbatim>\<open>get()\<close> returns whatever the slot holds and
  the program goes on.
\<close>

theorem get_in_window:
  assumes "exec ndebug as (init func) = Some s" and "notified_only as"
    and "caller s = User" and "crashed s = None"
  shows "(in_window ndebug as func \<longrightarrow>
            canGetValue s \<and> published s \<noteq> [] \<and>
            get ndebug s = Inr (Some (last (published s))) \<and>
            exec ndebug [Invoke Get] s = Some s) \<and>
         (\<not> in_window ndebug as func \<longrightarrow>
            \<not> canGetValue s \<and>
            (\<not> ndebug \<longrightarrow>
               exec ndebug [Invoke Get] s = Some (s\<lparr>crashed := Some AssertionFailure\<rparr>) \<and>
               (\<forall>a. step ndebug a (s\<lparr>crashed := Some AssertionFailure\<rparr>) = None)) \<and>
            (ndebug \<longrightarrow> exec ndebug [Invoke Get] s = Some s \<and> get ndebug s = Inr (result s)))"
proof -
  from coherent_exec [OF assms(1,2)] have c: "lock_inv s" "handshake s"
    by simp_all
  have "window_inv s (in_window ndebug as func)"
    unfolding in_window_def
    using assms(1,2) lock_inv_init handshake_init window_inv_init
    by (rule window_inv_exec)
  with assms(3) have w: "in_window ndebug as func \<longleftrightarrow> fresh (thread s)"
    by (simp add: window_inv_def)
  from c(2) assms(3) have p: "parked (thread s)"
    and q: "slot_state (thread s) (quit s) (canGetValue s)"
    by (simp_all add: handshake_def)
  from p q have f: "fresh (thread s) \<longleftrightarrow> canGetValue s"
    by (cases rule: parked_cases) auto
  from slot_inv_exec [OF assms(1)]
  have slot: "canGetValue s \<longrightarrow> published s \<noteq> [] \<and> result s = Some (last (published s))"
    by (simp add: slot_inv_def)
  from w f slot assms(3,4) show ?thesis
    by (auto simp: get_def)
qed

theorem get_in_window_witness:
  "exec False (construct_run @ resume_run) (init (yields [1::nat, 2, 3])) =
     Some \<lparr>quit = False, canGetValue = True, result = Some 2, mutex = None,
       caller = User, thread = InYield YieldBlocked 2 (yields [3]) [], crashed = None,
       published = [1, 2], resumes = 1, intercepted = False\<rparr> \<and>
   notified_only (construct_run @ resume_run) \<and>
   in_window False (construct_run @ resume_run) (yields [1::nat, 2, 3]) \<and>
   get False \<lparr>quit = False, canGetValue = True, result = Some 2, mutex = None,
       caller = User, thread = InYield YieldBlocked 2 (yields [3]) [], crashed = None,
       published = [1, 2], resumes = 1, intercepted = False\<rparr> = Inr (Some (2::nat)) \<and>
   exec False (construct_run @ resume_run @ resume_run @ resume_run)
     (init (yields [1::nat, 2, 3])) =
     Some \<lparr>quit = True, canGetValue = False, result = Some 3, mutex = None,
       caller = User, thread = Exited, crashed = None,
       published = [1, 2, 3], resumes = 3, intercepted = False\<rparr> \<and>
   notified_only (construct_run @ resume_run @ resume_run @ resume_run) \<and>
   in_window False (construct_run @ resume_run @ resume_run @ resume_run)
     (yields [1::nat, 2, 3]) = False \<and>
   exec False [Invoke Get]
     \<lparr>quit = True, canGetValue = False, result = Some 3, mutex = None,
       caller = User, thread = Exited, crashed = None,
       published = [1, 2, 3], resumes = 3, intercepted = False\<rparr> =
     Some \<lparr>quit = True, canGetValue = False, result = Some (3::nat), mutex = None,
       caller = User, thread = Exited, crashed = Some AssertionFailure,
       published = [1, 2, 3], resumes = 3, intercepted = False\<rparr> \<and>
   exec True (construct_run @ resume_run @ resume_run @ resume_run)
     (init (yields [1::nat, 2, 3])) =
     Some \<lparr>quit = True, canGetValue = False, result = Some 3, mutex = None,
       caller = User, thread = Exited, crashed = None,
       published = [1, 2, 3], resumes = 3, intercepted = False\<rparr> \<and>
   in_window True (construct_run @ resume_run @ resume_run @ resume_run)
     (yields [1::nat, 2, 3]) = False \<and>
   exec True [Invoke Get]
     \<lparr>quit = True, canGetValue = False, result = Some 3, mutex = None,
       caller = User, thread = Exited, crashed = None,
       published = [1, 2, 3], resumes = 3, intercepted = False\<rparr> =
     Some \<lparr>quit = True, canGetValue = False, result = Some (3::nat), mutex = None,
       caller = User, thread = Exited, crashed = None,
       published = [1, 2, 3], resumes = 3, intercepted = False\<rparr>"
  using get_in_window [of False "construct_run @ resume_run" "yields [1::nat, 2, 3]"
      "\<lparr>quit = False, canGetValue = True, result = Some 2, mutex = None,
       caller = User, thread = InYield YieldBlocked 2 (yields [3]) [], crashed = None,
       published = [1, 2], resumes = 1, intercepted = False\<rparr>"]
    get_in_window [of False "construct_run @ resume_run @ resume_run @ resume_run"
      "yields [1::nat, 2, 3]"
      "\<lparr>quit = True, canGetValue = False, result = Some 3, mutex = None,
       caller = User, thread = Exited, crashed = None,
       published = [1, 2, 3], resumes = 3, intercepted = False\<rparr>"]
    get_in_window [of True "construct_run @ resume_run @ resume_run @ resume_run"
      "yields [1::nat, 2, 3]"
      "\<lparr>quit = True, canGetValue = False, result = Some 3, mutex = None,
       caller = User, thread = Exited, crashed = None,
       published = [1, 2, 3], resumes = 3, intercepted = False\<rparr>"]
  by (simp add: run_simps notified_only_def in_window_def window_step_def)

text \<open>
  C7 as stated fails: compiled with \<^verbatim>\<open>NDEBUG\<close>, the body yields 1, 2, 3 and the caller
  calls \<^verbatim>\<open>resume()\<close> three times. The body has returned and the window is closed, yet
  \<^verbatim>\<open>get()\<close> returns the stale 3; nothing fails, and the caller goes on to its next
  call.
\<close>

theorem get_outside_window_counterexample:
  "in_window True (construct_run @ resume_run @ resume_run @ resume_run)
     (yields [1::nat, 2, 3]) = False \<and>
   map_option (get True)
     (exec True (construct_run @ resume_run @ resume_run @ resume_run)
        (init (yields [1::nat, 2, 3]))) = Some (Inr (Some 3)) \<and>
   map_option crashed
     (exec True (construct_run @ resume_run @ resume_run @ resume_run @ [Invoke Get])
        (init (yields [1::nat, 2, 3]))) = Some None \<and>
   map_option caller
     (exec True (construct_run @ resume_run @ resume_run @ resume_run @ [Invoke Get, Invoke Alive])
        (init (yields [1::nat, 2, 3]))) = Some User"
  by (simp add: run_simps in_window_def window_step_def)

text \<open>
  C8. The code at an execution in which the constructor's wait (line 35, a \<^verbatim>\<open>wait\<close>
  with no predicate) is unblocked with no notification, before the worker has run: the
  constructor returns while the body has neither yielded nor finished. The caller is in
  its own code, the worker is at the start of the body, nothing has been published and
  \<^verbatim>\<open>quit\<close> is false. (\<open>caller_runs_while_worker_parked\<close> above: when every wake-up is
  a notification, the worker is suspended in \<^verbatim>\<open>yield\<close> or has finished whenever the
  caller is in its own code.)
\<close>

theorem spurious_wakeup_in_constructor:
  "map_option caller
     (exec False (replicate 3 (Step Caller) @ Spurious Caller # replicate 2 (Step Caller))
        (init (yields [1::nat]))) = Some User \<and>
   map_option thread
     (exec False (replicate 3 (Step Caller) @ Spurious Caller # replicate 2 (Step Caller))
        (init (yields [1::nat]))) = Some (InBody (yields [1])) \<and>
   map_option published
     (exec False (replicate 3 (Step Caller) @ Spurious Caller # replicate 2 (Step Caller))
        (init (yields [1::nat]))) = Some [] \<and>
   map_option quit
     (exec False (replicate 3 (Step Caller) @ Spurious Caller # replicate 2 (Step Caller))
        (init (yields [1::nat]))) = Some False"
  by (simp add: run_simps)

text \<open>
  C9. When \<^verbatim>\<open>resume()\<close> is called with \<^verbatim>\<open>quit\<close> already true and assertions compiled
  out, the caller takes the mutex, finds the flag set and returns: four statements of the
  caller alone, none of them a notification or a wait. The worker is left where it was, and
  \<^verbatim>\<open>quit\<close>, \<^verbatim>\<open>canGetValue\<close> and \<^verbatim>\<open>result\<close> are unchanged; the only difference in the
  state is the count of completed calls. The mutex is free, as it is whenever the caller
  is in its own code in an execution where every wake-up is a notification
  (\<open>caller_runs_while_worker_parked\<close>).
\<close>

theorem resume_when_quit:
  assumes "quit s" and "caller s = User" and "crashed s = None" and "mutex s = None"
  shows "exec True [Invoke Resume, Step Caller, Step Caller, Step Caller, Step Caller] s =
           Some (s\<lparr>resumes := Suc (resumes s)\<rparr>)"
  using assms by (simp add: lock_def unlock_def)

theorem resume_when_quit_witness:
  "exec True construct_run (init (Return :: nat body)) =
     Some \<lparr>quit = True, canGetValue = False, result = None, mutex = None,
       caller = User, thread = Exited, crashed = None,
       published = [], resumes = 0, intercepted = False\<rparr> \<and>
   exec True [Invoke Resume, Step Caller, Step Caller, Step Caller, Step Caller]
     \<lparr>quit = True, canGetValue = False, result = None, mutex = None,
       caller = User, thread = Exited, crashed = None,
       published = [], resumes = 0, intercepted = False\<rparr> =
     Some \<lparr>quit = True, canGetValue = False, result = (None :: nat option), mutex = None,
       caller = User, thread = Exited, crashed = None,
       published = [], resumes = 1, intercepted = False\<rparr>"
  using resume_when_quit [of
      "\<lparr>quit = True, canGetValue = False, result = (None :: nat option), mutex = None,
        caller = User, thread = Exited, crashed = None,
        published = [], resumes = 0, intercepted = False\<rparr>"]
  by (simp add: run_simps)

text \<open>
  C10. \<^verbatim>\<open>get()\<close> changes nothing: in a state where \<^verbatim>\<open>canGetValue\<close> holds, any number
  of consecutive calls from the caller's user code leave the state exactly as it was, so
  each of them returns the same value, the content of the slot.
\<close>

theorem get_idempotent:
  assumes "canGetValue s" and "caller s = User" and "crashed s = None"
  shows "exec ndebug (replicate n (Invoke Get)) s = Some s \<and> get ndebug s = Inr (result s)"
  using assms by (induction n) (auto simp: get_def)

theorem get_idempotent_witness:
  "exec False (replicate 3 (Invoke Get))
     \<lparr>quit = False, canGetValue = True, result = Some 2, mutex = None,
       caller = User, thread = InYield YieldBlocked 2 (yields [3]) [], crashed = None,
       published = [1, 2], resumes = 1, intercepted = False\<rparr> =
     Some \<lparr>quit = False, canGetValue = True, result = Some (2::nat), mutex = None,
       caller = User, thread = InYield YieldBlocked 2 (yields [3]) [], crashed = None,
       published = [1, 2], resumes = 1, intercepted = False\<rparr> \<and>
   get False \<lparr>quit = False, canGetValue = True, result = Some 2, mutex = None,
       caller = User, thread = InYield YieldBlocked 2 (yields [3]) [], crashed = None,
       published = [1, 2], resumes = 1, intercepted = False\<rparr> = Inr (Some (2::nat))"
  using get_idempotent [of
      "\<lparr>quit = False, canGetValue = True, result = Some (2::nat), mutex = None,
        caller = User, thread = InYield YieldBlocked 2 (yields [3]) [], crashed = None,
        published = [1, 2], resumes = 1, intercepted = False\<rparr>" False 3]
  by simp

end
